theory Spec2Isabelle
  imports Main "HOL-Library.Sublist"
begin

section \<open>The deferred-task bridge (libtego\_ui/libtego\_callbacks.cpp)\<close>

text \<open>
  A task is a \<^verbatim>\<open>std::function<void()>\<close>. It runs on the owning context, where it may
  change the state of that context (the type variable \<open>'w\<close>: shims, settings, models) and
  either returns or throws. What \<^verbatim>\<open>consume_tasks\<close> can tell apart about a thrown object is
  whether its type derives from \<^verbatim>\<open>std::exception\<close> (then \<^verbatim>\<open>what()\<close> is available) or not.
\<close>

datatype thrown = StdException string | OtherThrow

type_synonym 'w task = "'w \<Rightarrow> thrown option \<times> 'w"

text \<open>
  The data of the anonymous namespace: \<^verbatim>\<open>taskQueue\<close> (guarded by \<^verbatim>\<open>taskQueueLock\<close>), the
  function-static \<^verbatim>\<open>localTaskQueue\<close> of \<^verbatim>\<open>consume_tasks\<close>, the single shots requested from
  \<^verbatim>\<open>QTimer\<close> for \<^verbatim>\<open>consume_tasks\<close> and not fired yet (each with its delay in
  milliseconds), the lines streamed to \<^verbatim>\<open>qDebug()\<close> (each the list of streamed items), and
  the state of the owning context.
\<close>

record 'w bridge =
  taskQueue :: "'w task list"
  localTaskQueue :: "'w task list"
  singleShots :: "int list"
  debugOut :: "string list list"
  world :: 'w

definition consumeInterval :: int where
  "consumeInterval = 10"

text \<open>\<^verbatim>\<open>push_task\<close>: under the lock, \<^verbatim>\<open>taskQueue.push_back(std::move(func))\<close>.\<close>

definition push_task :: "'w task \<Rightarrow> 'w bridge \<Rightarrow> 'w bridge" where
  "push_task func s = s\<lparr>taskQueue := taskQueue s @ [func]\<rparr>"

text \<open>
  Producer contexts call \<^verbatim>\<open>push_task\<close> concurrently with the owning context. The mutex makes
  each call atomic, so a run of producer calls is a sequence of them.
\<close>

fun producers :: "'w task list \<Rightarrow> 'w bridge \<Rightarrow> 'w bridge" where
  "producers [] s = s"
| "producers (func # funcs) s = producers funcs (push_task func s)"

text \<open>The locked block of \<^verbatim>\<open>consume_tasks\<close>: \<^verbatim>\<open>std::swap(taskQueue, localTaskQueue)\<close>.\<close>

definition swap_queues :: "'w bridge \<Rightarrow> 'w bridge" where
  "swap_queues s = s\<lparr>taskQueue := localTaskQueue s, localTaskQueue := taskQueue s\<rparr>"

text \<open>\<^verbatim>\<open>QTimer::singleShot(msec, &consume_tasks)\<close>.\<close>

definition singleShot :: "int \<Rightarrow> 'w bridge \<Rightarrow> 'w bridge" where
  "singleShot msec s = s\<lparr>singleShots := singleShots s @ [msec]\<rparr>"

text \<open>
  The body of the loop: \<^verbatim>\<open>try { task(); } catch(std::exception& ex) { qDebug() << ... }\<close>.
  The handler matches objects derived from \<^verbatim>\<open>std::exception\<close> only; any other thrown
  object leaves the block, and with it \<^verbatim>\<open>consume_tasks\<close>.
\<close>

definition try_task :: "'w task \<Rightarrow> 'w bridge \<Rightarrow> thrown option \<times> 'w bridge" where
  "try_task task s =
     (case task (world s) of
        (None, w) \<Rightarrow> (None, s\<lparr>world := w\<rparr>)
      | (Some (StdException what), w) \<Rightarrow>
          (None, s\<lparr>world := w,
                   debugOut := debugOut s @ [[''Exception thrown from task: '', what]]\<rparr>)
      | (Some OtherThrow, w) \<Rightarrow> (Some OtherThrow, s\<lparr>world := w\<rparr>))"

text \<open>
  \<^verbatim>\<open>for(auto task : localTaskQueue)\<close>. The loop holds no lock. The first argument lists, for
  each iteration in turn, the tasks that producer contexts enqueue while that iteration
  runs; what is left of it when the loop ends is enqueued before \<^verbatim>\<open>consume_tasks\<close> returns.
\<close>

fun for_each_task ::
  "'w task list list \<Rightarrow> 'w task list \<Rightarrow> 'w bridge \<Rightarrow> thrown option \<times> 'w bridge" where
  "for_each_task arrivals [] s = (None, producers (concat arrivals) s)"
| "for_each_task arrivals (task # rest) s =
     (case try_task task (producers (case arrivals of [] \<Rightarrow> [] | a # _ \<Rightarrow> a) s) of
        (Some ex, s') \<Rightarrow> (Some ex, s')
      | (None, s') \<Rightarrow> for_each_task (tl arrivals) rest s')"

text \<open>
  \<^verbatim>\<open>consume_tasks\<close>: swap, run the batch, \<^verbatim>\<open>localTaskQueue.clear()\<close>, and
  \<^verbatim>\<open>QTimer::singleShot(consumeInterval, &consume_tasks)\<close>. A propagating exception skips the
  last two statements.
\<close>

definition consume_tasks ::
  "'w task list list \<Rightarrow> 'w bridge \<Rightarrow> thrown option \<times> 'w bridge" where
  "consume_tasks arrivals s =
     (let s1 = swap_queues s in
      case for_each_task arrivals (localTaskQueue s1) s1 of
        (Some ex, s2) \<Rightarrow> (Some ex, s2)
      | (None, s2) \<Rightarrow> (None, singleShot consumeInterval (s2\<lparr>localTaskQueue := []\<rparr>)))"

subsection \<open>What a drain tick is observed to do\<close>

text \<open>
  The state the owning context is left in when the tasks of a batch have run one after
  the other, each once, in the order of the list. A task that throws has already made
  the changes it made before throwing.
\<close>

fun effects :: "'w task list \<Rightarrow> 'w \<Rightarrow> 'w" where
  "effects [] w = w"
| "effects (task # rest) w = effects rest (snd (task w))"

text \<open>The \<^verbatim>\<open>qDebug()\<close> lines of the handler for a batch run in order from \<open>w\<close>.\<close>

fun caught :: "'w task list \<Rightarrow> 'w \<Rightarrow> string list list" where
  "caught [] w = []"
| "caught (task # rest) w =
     (case fst (task w) of
        Some (StdException what) \<Rightarrow> [[''Exception thrown from task: '', what]]
      | _ \<Rightarrow> []) @ caught rest (snd (task w))"

text \<open>
  No task of the batch, run in order from \<open>w\<close>, throws an object that is not a
  \<^verbatim>\<open>std::exception\<close>.
\<close>

fun completes :: "'w task list \<Rightarrow> 'w \<Rightarrow> bool" where
  "completes [] w = True"
| "completes (task # rest) w = (fst (task w) \<noteq> Some OtherThrow \<and> completes rest (snd (task w)))"

text \<open>
  The tasks of a batch that the loop calls when the batch is run in order from \<open>w\<close>: all
  of them up to and including the first that throws an object that is not a
  \<^verbatim>\<open>std::exception\<close>.
\<close>

fun executed :: "'w task list \<Rightarrow> 'w \<Rightarrow> 'w task list" where
  "executed [] w = []"
| "executed (task # rest) w =
     task # (if fst (task w) = Some OtherThrow then [] else executed rest (snd (task w)))"

subsection \<open>Executions of the bridge\<close>

text \<open>
  What happens to the bridge, in the order the lock and the event loop of the owning
  context serialise it: a producer context enqueues a task, or the event loop fires the
  pending single shot and calls \<^verbatim>\<open>consume_tasks\<close> (with the tasks producers enqueue while
  each iteration of its loop runs).
\<close>

datatype 'w event = Enqueue "'w task" | TimerFires "'w task list list"

text \<open>
  \<^verbatim>\<open>init_libtego_callbacks\<close>: \<^verbatim>\<open>QTimer::singleShot(consumeInterval, &consume_tasks)\<close>. The
  registrations of the callbacks with libtego that follow it do not touch the bridge.
\<close>

definition init_libtego_callbacks :: "'w bridge \<Rightarrow> 'w bridge" where
  "init_libtego_callbacks s = singleShot consumeInterval s"

text \<open>
  An execution ends where an exception leaves \<^verbatim>\<open>consume_tasks\<close>. A timer event with no
  single shot pending calls nothing; the producers still enqueue.
\<close>

fun run :: "'w event list \<Rightarrow> 'w bridge \<Rightarrow> thrown option \<times> 'w bridge" where
  "run [] s = (None, s)"
| "run (Enqueue func # es) s = run es (push_task func s)"
| "run (TimerFires arrivals # es) s =
     (case singleShots s of
        [] \<Rightarrow> run es (producers (concat arrivals) s)
      | msec # shots \<Rightarrow>
          (case consume_tasks arrivals (s\<lparr>singleShots := shots\<rparr>) of
             (Some ex, s') \<Rightarrow> (Some ex, s')
           | (None, s') \<Rightarrow> run es s'))"

text \<open>Every task enqueued in the course of an execution, in the order of the calls.\<close>

fun enqueued :: "'w event list \<Rightarrow> 'w task list" where
  "enqueued [] = []"
| "enqueued (Enqueue func # es) = func # enqueued es"
| "enqueued (TimerFires arrivals # es) = concat arrivals @ enqueued es"

text \<open>
  No tick of an execution meets a task that throws an object that is not a
  \<^verbatim>\<open>std::exception\<close>: followed from the tasks waiting in \<open>queue\<close> and the state \<open>w\<close> of the
  owning context, every timer event finds a batch that completes. It is computed from the
  events and the tasks alone.
\<close>

fun ticks_complete :: "'w event list \<Rightarrow> 'w task list \<Rightarrow> 'w \<Rightarrow> bool" where
  "ticks_complete [] queue w = True"
| "ticks_complete (Enqueue func # es) queue w = ticks_complete es (queue @ [func]) w"
| "ticks_complete (TimerFires arrivals # es) queue w =
     (completes queue w \<and> ticks_complete es (concat arrivals) (effects queue w))"

text \<open>The bridge as static initialisation leaves it, the owning context in state \<open>w\<close>.\<close>

definition idle :: "'w \<Rightarrow> 'w bridge" where
  "idle w = \<lparr>taskQueue = [], localTaskQueue = [], singleShots = [], debugOut = [], world = w\<rparr>"

section \<open>The settings store\<close>

text \<open>
  Modelled from the spec: \<^verbatim>\<open>SettingsObject\<close> is declared in \<^verbatim>\<open>utils/Settings.h\<close>, which is not
  among the sources. The spec has the persistence store as a string-keyed key-value store
  whose keys are dotted paths (\<^verbatim>\<open>contacts.<hostname>.request.*\<close>); the encoding of a value
  is the store's concern, so a stored value keeps the type it was written with.
\<close>

datatype stored = Bytes string | Text string | Date int | Hosts "string list"

type_synonym settings = "string \<rightharpoonup> stored"

text \<open>
  Modelled from the spec: the block of the store at a path is the entry at that path and
  every entry whose key continues the path after a dot.
\<close>

definition in_block :: "string \<Rightarrow> string \<Rightarrow> bool" where
  "in_block path key = (key = path \<or> prefix (path @ ''.'') key)"

text \<open>
  Modelled from the spec: \<^verbatim>\<open>SettingsObject(path).unset(key)\<close>, which the comment at its call
  in \<^verbatim>\<open>on_chat_request_response_received\<close> describes as deleting the block entirely.
\<close>

definition unset :: "string \<Rightarrow> string \<Rightarrow> settings \<Rightarrow> settings" where
  "unset path key st = (\<lambda>k. if in_block (path @ ''.'' @ key) k then None else st k)"

subsection \<open>The chat-request response callback (libtego\_ui/libtego\_callbacks.cpp)\<close>

text \<open>
  The task that \<^verbatim>\<open>on_chat_request_response_received\<close> enqueues, over an owning context
  whose state is the settings store. \<^verbatim>\<open>serviceIdString\<close> is the string libtego renders the
  user's service id to, \<^verbatim>\<open>requestAccepted\<close> a \<^verbatim>\<open>tego_bool_t\<close> (an integer, tested for being
  non-zero); \<^verbatim>\<open>QStringLiteral("contacts.%1").arg(serviceIdString)\<close> is the path of the
  settings object. \<^verbatim>\<open>logger::trace()\<close> writes to the log only and is left out.
\<close>

definition chat_request_response_task :: "string \<Rightarrow> int \<Rightarrow> settings task" where
  "chat_request_response_task serviceIdString requestAccepted st =
     (None,
      if requestAccepted \<noteq> 0
      then unset (''contacts.'' @ serviceIdString) ''request'' st
      else st)"

definition on_chat_request_response_received ::
  "string \<Rightarrow> int \<Rightarrow> settings bridge \<Rightarrow> settings bridge" where
  "on_chat_request_response_received serviceIdString requestAccepted s =
     push_task (chat_request_response_task serviceIdString requestAccepted) s"

section \<open>Incoming contact requests (core/IncomingRequestManager.h)\<close>

text \<open>
  \<^verbatim>\<open>class IncomingContactRequest\<close>: the constant \<^verbatim>\<open>hostname\<close> and the private members.
  \<^verbatim>\<open>connection\<close> is a \<^verbatim>\<open>QWeakPointer<ContactRequestServer>\<close>: nothing, or the identity of
  a session object, which the pointer does not own. Dates are milliseconds since the
  epoch.
\<close>

record request =
  hostname :: string
  connection :: "nat option"
  m_remoteSecret :: string
  m_message :: string
  m_nickname :: string
  m_requestDate :: int
  m_lastRequestDate :: int

text \<open>The inline getters of the header.\<close>

definition remoteSecret :: "request \<Rightarrow> string" where
  "remoteSecret r = m_remoteSecret r"

definition message :: "request \<Rightarrow> string" where
  "message r = m_message r"

definition nickname :: "request \<Rightarrow> string" where
  "nickname r = m_nickname r"

definition requestDate :: "request \<Rightarrow> int" where
  "requestDate r = m_requestDate r"

definition lastRequestDate :: "request \<Rightarrow> int" where
  "lastRequestDate r = m_lastRequestDate r"

text \<open>
  \<^verbatim>\<open>QWeakPointer::isNull()\<close> of Qt: true of a pointer that was never set or was cleared, and
  of one whose object has been destroyed. \<open>alive\<close> is the set of the session objects that
  exist; the transport layer creates and destroys them.
\<close>

definition isNull :: "nat set \<Rightarrow> nat option \<Rightarrow> bool" where
  "isNull alive p = (case p of None \<Rightarrow> True | Some session \<Rightarrow> session \<notin> alive)"

text \<open>\<^verbatim>\<open>bool hasActiveConnection() const { return connection != 0; }\<close>\<close>

definition hasActiveConnection :: "nat set \<Rightarrow> request \<Rightarrow> bool" where
  "hasActiveConnection alive r = (\<not> isNull alive (connection r))"

text \<open>
  Modelled from the spec: \<^verbatim>\<open>IncomingContactRequest::setConnection\<close> is declared in the
  header and defined in no source file. The spec: associate or clear the non-owning
  live-connection reference.
\<close>

definition setConnection :: "nat option \<Rightarrow> request \<Rightarrow> request" where
  "setConnection c r = r\<lparr>connection := c\<rparr>"

text \<open>
  Modelled from the spec: the transport layer reports a session closed; its object is
  destroyed. (The transport layer is no source file.)
\<close>

definition sessionClosed :: "nat \<Rightarrow> nat set \<Rightarrow> nat set" where
  "sessionClosed session alive = alive - {session}"

text \<open>
  Modelled from the spec: the constructor
  \<^verbatim>\<open>IncomingContactRequest(manager, hostname, connection = 0)\<close> is declared in the header
  and defined in no source file. A fresh record has empty fields and null dates.
\<close>

definition IncomingContactRequest :: "string \<Rightarrow> nat option \<Rightarrow> request" where
  "IncomingContactRequest h c =
     \<lparr>hostname = h, connection = c, m_remoteSecret = [], m_message = [], m_nickname = [],
      m_requestDate = 0, m_lastRequestDate = 0\<rparr>"

subsection \<open>Persistence of a record\<close>

text \<open>
  Modelled from the spec: the namespace \<^verbatim>\<open>contacts.<hostname>.request.*\<close> of a record, with
  the fields \<^verbatim>\<open>secret\<close>, \<^verbatim>\<open>message\<close>, \<^verbatim>\<open>nickname\<close>, \<^verbatim>\<open>date\<close> and \<^verbatim>\<open>lastRequestDate\<close>.
\<close>

definition requestPath :: "string \<Rightarrow> string" where
  "requestPath h = ''contacts.'' @ h @ ''.request''"

definition requestKey :: "string \<Rightarrow> string \<Rightarrow> string" where
  "requestKey h field = requestPath h @ ''.'' @ field"

text \<open>
  Modelled from the spec: \<^verbatim>\<open>IncomingContactRequest::save\<close> is declared in the header and
  defined in no source file. The spec: serialize the record's fields to the persistence
  store under the per-hostname key namespace.
\<close>

definition save :: "request \<Rightarrow> settings \<Rightarrow> settings" where
  "save r st = st
     (requestKey (hostname r) ''secret'' \<mapsto> Bytes (m_remoteSecret r),
      requestKey (hostname r) ''message'' \<mapsto> Text (m_message r),
      requestKey (hostname r) ''nickname'' \<mapsto> Text (m_nickname r),
      requestKey (hostname r) ''date'' \<mapsto> Date (m_requestDate r),
      requestKey (hostname r) ''lastRequestDate'' \<mapsto> Date (m_lastRequestDate r))"

text \<open>
  Modelled from the spec: reading a field of the store. The spec does not say what a
  missing or differently typed entry reads as; here it reads as the empty value.
\<close>

definition readBytes :: "settings \<Rightarrow> string \<Rightarrow> string" where
  "readBytes st k = (case st k of Some (Bytes b) \<Rightarrow> b | _ \<Rightarrow> [])"

definition readText :: "settings \<Rightarrow> string \<Rightarrow> string" where
  "readText st k = (case st k of Some (Text t) \<Rightarrow> t | _ \<Rightarrow> [])"

definition readDate :: "settings \<Rightarrow> string \<Rightarrow> int" where
  "readDate st k = (case st k of Some (Date d) \<Rightarrow> d | _ \<Rightarrow> 0)"

text \<open>
  Modelled from the spec: \<^verbatim>\<open>IncomingContactRequest::load\<close> is declared in the header and
  defined in no source file. The spec: deserialize the record's fields from the
  persistence store under the per-hostname key namespace.
\<close>

definition load :: "settings \<Rightarrow> request \<Rightarrow> request" where
  "load st r = r
     \<lparr>m_remoteSecret := readBytes st (requestKey (hostname r) ''secret''),
      m_message := readText st (requestKey (hostname r) ''message''),
      m_nickname := readText st (requestKey (hostname r) ''nickname''),
      m_requestDate := readDate st (requestKey (hostname r) ''date''),
      m_lastRequestDate := readDate st (requestKey (hostname r) ''lastRequestDate'')\<rparr>"

subsection \<open>The registry\<close>

text \<open>
  The signals of \<^verbatim>\<open>class IncomingRequestManager\<close>, each with the hostname of the record it
  carries, and what the transport layer is told when a request is resolved.
\<close>

datatype signal = RequestAdded string | RequestRemoved string

datatype notice = AcceptContact string | RejectContact string

fun about :: "signal \<Rightarrow> string" where
  "about (RequestAdded h) = h"
| "about (RequestRemoved h) = h"

text \<open>
  \<^verbatim>\<open>class IncomingRequestManager\<close>: the member \<^verbatim>\<open>m_requests\<close>, with the persistence store it
  works on, the signals emitted so far and the notices given to the transport layer so
  far.
\<close>

record manager =
  m_requests :: "request list"
  store :: settings
  emitted :: "signal list"
  toTransport :: "notice list"

text \<open>\<^verbatim>\<open>QList<IncomingContactRequest*> requests() const { return m_requests; }\<close>\<close>

definition requests :: "manager \<Rightarrow> request list" where
  "requests m = m_requests m"

text \<open>
  Modelled from the spec: \<^verbatim>\<open>IncomingRequestManager::requestFromHostname\<close> is declared in
  the header and defined in no source file. The spec: lookup; returns "not found" (not an
  error) when absent.
\<close>

definition requestFromHostname :: "string \<Rightarrow> manager \<Rightarrow> request option" where
  "requestFromHostname h m = find (\<lambda>r. hostname r = h) (m_requests m)"

text \<open>
  The records are objects held by pointer: changing a record changes it where it stands in
  the list, and \<^verbatim>\<open>QList::removeOne\<close> takes one element out.
\<close>

fun updateRecord :: "request \<Rightarrow> request list \<Rightarrow> request list" where
  "updateRecord r' [] = []"
| "updateRecord r' (r # rs) =
     (if hostname r = hostname r' then r' # rs else r # updateRecord r' rs)"

fun removeOne :: "string \<Rightarrow> request list \<Rightarrow> request list" where
  "removeOne h [] = []"
| "removeOne h (r # rs) = (if hostname r = h then rs else r # removeOne h rs)"

text \<open>
  Modelled from the spec: \<^verbatim>\<open>IncomingRequestManager::addRequest\<close> is declared in the header
  and defined in no source file. The spec: upsert keyed by hostname. No existing record:
  create one, set \<^verbatim>\<open>requestDate = lastRequestDate = now\<close>, persist it, append to the
  collection, emit added. Existing record: renewal; update \<^verbatim>\<open>lastRequestDate = now\<close>,
  overwrite secret, connection handle, nickname and message with the latest values,
  re-persist; emit no added or removed event. \<open>now\<close> is the reading of the clock. The
  field-changed notifications of the spec are left out: the header declares no signal
  for them.
\<close>

definition addRequest ::
  "string \<Rightarrow> string \<Rightarrow> nat option \<Rightarrow> string \<Rightarrow> string \<Rightarrow> int \<Rightarrow> manager \<Rightarrow> manager" where
  "addRequest h connSecret conn nick msg now m =
     (case requestFromHostname h m of
        None \<Rightarrow>
          (let r = (IncomingContactRequest h conn)
                     \<lparr>m_remoteSecret := connSecret, m_message := msg, m_nickname := nick,
                      m_requestDate := now, m_lastRequestDate := now\<rparr>
           in m\<lparr>store := save r (store m),
                m_requests := m_requests m @ [r],
                emitted := emitted m @ [RequestAdded h]\<rparr>)
      | Some r \<Rightarrow>
          (let r' = r\<lparr>m_lastRequestDate := now, m_remoteSecret := connSecret,
                      connection := conn, m_nickname := nick, m_message := msg\<rparr>
           in m\<lparr>store := save r' (store m),
                m_requests := updateRecord r' (m_requests m)\<rparr>))"

text \<open>
  Modelled from the spec: \<^verbatim>\<open>IncomingRequestManager::removeRequest\<close> is declared in the
  header and defined in no source file. The spec: delete the persisted entry, remove from
  the in-memory collection, emit removed.
\<close>

definition removeRequest :: "string \<Rightarrow> manager \<Rightarrow> manager" where
  "removeRequest h m =
     m\<lparr>store := unset (''contacts.'' @ h) ''request'' (store m),
       m_requests := removeOne h (m_requests m),
       emitted := emitted m @ [RequestRemoved h]\<rparr>"

text \<open>
  Modelled from the spec: \<^verbatim>\<open>IncomingContactRequest::accept\<close> and \<^verbatim>\<open>reject\<close> are declared in
  the header and defined in no source file. The spec: \<^verbatim>\<open>accept()\<close> signals acceptance to the
  transport layer, then calls the registry's \<^verbatim>\<open>removeRequest\<close> on itself; \<^verbatim>\<open>reject()\<close>
  signals the transport layer to tear down the session and calls \<^verbatim>\<open>removeRequest\<close> on
  itself, and does not add to the blacklist. They are methods of a record of the
  registry, named here by its hostname; on a record that is not (or no longer) in the
  registry they are invalid operations, \<open>None\<close>.
\<close>

definition accept :: "string \<Rightarrow> manager \<Rightarrow> manager option" where
  "accept h m =
     (case requestFromHostname h m of
        None \<Rightarrow> None
      | Some r \<Rightarrow> Some (removeRequest h (m\<lparr>toTransport := toTransport m @ [AcceptContact h]\<rparr>)))"

definition reject :: "string \<Rightarrow> manager \<Rightarrow> manager option" where
  "reject h m =
     (case requestFromHostname h m of
        None \<Rightarrow> None
      | Some r \<Rightarrow> Some (removeRequest h (m\<lparr>toTransport := toTransport m @ [RejectContact h]\<rparr>)))"

subsection \<open>The blacklist\<close>

text \<open>
  Modelled from the spec: \<^verbatim>\<open>rejectedHosts\<close>, \<^verbatim>\<open>isHostnameRejected\<close> and \<^verbatim>\<open>addRejectedHost\<close> are
  declared in the header and defined in no source file. The spec: a separate key of the
  store holds the blacklist set of hostnames (the spec does not name the key);
  \<^verbatim>\<open>rejectedHosts\<close> is the full snapshot, \<^verbatim>\<open>isHostnameRejected\<close> a set-membership test,
  \<^verbatim>\<open>addRejectedHost\<close> adds to the persisted set and is idempotent.
\<close>

definition blacklistKey :: string where
  "blacklistKey = ''hostnameBlacklist''"

definition rejectedHosts :: "manager \<Rightarrow> string list" where
  "rejectedHosts m = (case store m blacklistKey of Some (Hosts hs) \<Rightarrow> hs | _ \<Rightarrow> [])"

definition isHostnameRejected :: "string \<Rightarrow> manager \<Rightarrow> bool" where
  "isHostnameRejected h m = (h \<in> set (rejectedHosts m))"

definition addRejectedHost :: "string \<Rightarrow> manager \<Rightarrow> manager" where
  "addRejectedHost h m =
     (if isHostnameRejected h m then m
      else m\<lparr>store := (store m)(blacklistKey \<mapsto> Hosts (rejectedHosts m @ [h]))\<rparr>)"

subsection \<open>Sequences of calls\<close>

text \<open>
  The arguments of one call of \<^verbatim>\<open>addRequest\<close> for a hostname: secret, connection handle,
  nickname, message, and the reading of the clock at the call.
\<close>

type_synonym call = "string \<times> nat option \<times> string \<times> string \<times> int"

text \<open>A run of \<^verbatim>\<open>addRequest\<close> calls for one hostname.\<close>

fun addRequests :: "string \<Rightarrow> call list \<Rightarrow> manager \<Rightarrow> manager" where
  "addRequests h [] m = m"
| "addRequests h ((connSecret, conn, nick, msg, now) # calls) m =
     addRequests h calls (addRequest h connSecret conn nick msg now m)"

text \<open>A run of \<^verbatim>\<open>addRejectedHost\<close> calls.\<close>

fun addRejectedHosts :: "string list \<Rightarrow> manager \<Rightarrow> manager" where
  "addRejectedHosts [] m = m"
| "addRejectedHosts (h # hs) m = addRejectedHosts hs (addRejectedHost h m)"

text \<open>The signals emitted so far that carry a record of the given hostname.\<close>

definition eventsFor :: "string \<Rightarrow> manager \<Rightarrow> signal list" where
  "eventsFor h m = filter (\<lambda>e. about e = h) (emitted m)"

text \<open>
  The calls that reach the registry from outside, a record's \<^verbatim>\<open>accept()\<close> and \<^verbatim>\<open>reject()\<close>
  named by the record's hostname. An invalid operation changes nothing.
\<close>

datatype command =
    AddRequest string string "nat option" string string int
  | Accept string
  | Reject string
  | AddRejectedHost string

fun perform :: "command \<Rightarrow> manager \<Rightarrow> manager" where
  "perform (AddRequest h connSecret conn nick msg now) m = addRequest h connSecret conn nick msg now m"
| "perform (Accept h) m = (case accept h m of None \<Rightarrow> m | Some m' \<Rightarrow> m')"
| "perform (Reject h) m = (case reject h m of None \<Rightarrow> m | Some m' \<Rightarrow> m')"
| "perform (AddRejectedHost h) m = addRejectedHost h m"

text \<open>A run of such calls.\<close>

fun performs :: "command list \<Rightarrow> manager \<Rightarrow> manager" where
  "performs [] m = m"
| "performs (c # cs) m = performs cs (perform c m)"

text \<open>The call is an \<^verbatim>\<open>addRequest\<close> for the hostname: it would create a record anew.\<close>

fun addsRequestFor :: "string \<Rightarrow> command \<Rightarrow> bool" where
  "addsRequestFor h (AddRequest h' connSecret conn nick msg now) = (h' = h)"
| "addsRequestFor h c = False"

section \<open>Example inputs\<close>

text \<open>
  Three tasks over an owning context that keeps a list of marks: one appends its name and
  returns, one is \<^verbatim>\<open>throw std::runtime_error(what)\<close>, one is \<^verbatim>\<open>throw 42\<close>.
\<close>

definition leaves_mark :: "string \<Rightarrow> string list task" where
  "leaves_mark name w = (None, w @ [name])"

definition throws_runtime_error :: "string \<Rightarrow> string list task" where
  "throws_runtime_error what w = (Some (StdException what), w)"

definition throws_int :: "string list task" where
  "throws_int w = (Some OtherThrow, w)"

text \<open>
  A store holding the request block and the nickname of one contact, and the request block
  of a contact whose service id continues the first one's.
\<close>

definition example_store :: settings where
  "example_store =
     [''contacts.abc.request.status'' \<mapsto> Text ''1'',
      ''contacts.abc.request.message'' \<mapsto> Text ''hi'',
      ''contacts.abc.nickname'' \<mapsto> Text ''Alice'',
      ''contacts.abcd.request.message'' \<mapsto> Text ''hello'']"

text \<open>Two records, an empty registry, and the registry after one request from \<^verbatim>\<open>abc.onion\<close>.\<close>

definition alice :: request where
  "alice = \<lparr>hostname = ''abc.onion'', connection = Some 1, m_remoteSecret = ''s1'',
            m_message = ''hi'', m_nickname = ''Alice'', m_requestDate = 1000,
            m_lastRequestDate = 2000\<rparr>"

definition aliceFirst :: request where
  "aliceFirst = \<lparr>hostname = ''abc.onion'', connection = Some 1, m_remoteSecret = ''s1'',
            m_message = ''hi'', m_nickname = ''Alice'', m_requestDate = 1000,
            m_lastRequestDate = 1000\<rparr>"

definition emptyManager :: manager where
  "emptyManager = \<lparr>m_requests = [], store = Map.empty, emitted = [], toTransport = []\<rparr>"

definition aliceAsks :: manager where
  "aliceAsks = addRequest ''abc.onion'' ''s1'' (Some 1) ''Alice'' ''hi'' 1000 emptyManager"

section \<open>Properties of the bridge\<close>

lemma producers_eq: "producers funcs s = s\<lparr>taskQueue := taskQueue s @ funcs\<rparr>"
  by (induction funcs arbitrary: s) (simp_all add: push_task_def)

lemma effects_append: "effects (xs @ ys) w = effects ys (effects xs w)"
  by (induction xs arbitrary: w) simp_all

lemma caught_append: "caught (xs @ ys) w = caught xs w @ caught ys (effects xs w)"
  by (induction xs arbitrary: w) simp_all

lemma completes_append: "completes (xs @ ys) w = (completes xs w \<and> completes ys (effects xs w))"
  by (induction xs arbitrary: w) auto

lemma try_task_cases:
  "try_task task s =
     (if fst (task (world s)) = Some OtherThrow
      then (Some OtherThrow, s\<lparr>world := snd (task (world s))\<rparr>)
      else (None, s\<lparr>world := snd (task (world s)),
                     debugOut := debugOut s @ caught [task] (world s)\<rparr>))"
  by (auto simp: try_task_def split: prod.splits option.splits thrown.splits)

lemma for_each_task_completes:
  "completes batch (world s) \<Longrightarrow>
   for_each_task arrivals batch s =
     (None, s\<lparr>taskQueue := taskQueue s @ concat arrivals,
              world := effects batch (world s),
              debugOut := debugOut s @ caught batch (world s)\<rparr>)"
proof (induction batch arbitrary: arrivals s)
  case Nil
  then show ?case by (simp add: producers_eq)
next
  case (Cons task rest)
  then show ?case
    by (cases arrivals) (simp_all add: try_task_cases producers_eq)
qed

lemma for_each_task_escapes:
  "\<not> completes batch (world s) \<Longrightarrow> fst (for_each_task arrivals batch s) = Some OtherThrow"
proof (induction batch arbitrary: arrivals s)
  case Nil
  then show ?case by simp
next
  case (Cons task rest)
  then show ?case
    by (cases arrivals) (auto simp add: try_task_cases producers_eq)
qed

lemma consume_tasks_completes:
  "completes (taskQueue s) (world s) \<Longrightarrow>
   consume_tasks arrivals s =
     (None, s\<lparr>taskQueue := localTaskQueue s @ concat arrivals,
              localTaskQueue := [],
              world := effects (taskQueue s) (world s),
              debugOut := debugOut s @ caught (taskQueue s) (world s),
              singleShots := singleShots s @ [consumeInterval]\<rparr>)"
  by (simp add: consume_tasks_def swap_queues_def singleShot_def for_each_task_completes)

lemma consume_tasks_escapes:
  "\<not> completes (taskQueue s) (world s) \<Longrightarrow> fst (consume_tasks arrivals s) = Some OtherThrow"
  using for_each_task_escapes [of "localTaskQueue (swap_queues s)" "swap_queues s" arrivals]
  by (auto simp add: consume_tasks_def Let_def swap_queues_def split: prod.splits option.splits)

lemma consume_tasks_None_iff:
  "fst (consume_tasks arrivals s) = None \<longleftrightarrow> completes (taskQueue s) (world s)"
  by (cases "completes (taskQueue s) (world s)")
     (simp_all add: consume_tasks_completes consume_tasks_escapes)

lemma consume_tasks_returns:
  assumes "consume_tasks arrivals s = (None, s')"
  shows "s' = s\<lparr>taskQueue := localTaskQueue s @ concat arrivals,
              localTaskQueue := [],
              world := effects (taskQueue s) (world s),
              debugOut := debugOut s @ caught (taskQueue s) (world s),
              singleShots := singleShots s @ [consumeInterval]\<rparr>"
proof -
  from assms have "fst (consume_tasks arrivals s) = None" by simp
  then have "completes (taskQueue s) (world s)" by (simp add: consume_tasks_None_iff)
  from consume_tasks_completes [OF this, of arrivals] assms show ?thesis by simp
qed

lemma run_returns:
  assumes "run es s = (None, s')" and "localTaskQueue s = []"
    and "singleShots s = [consumeInterval]"
  shows "localTaskQueue s' = [] \<and> singleShots s' = [consumeInterval] \<and>
         (\<exists>ran. taskQueue s @ enqueued es = ran @ taskQueue s' \<and>
                world s' = effects ran (world s) \<and>
                debugOut s' = debugOut s @ caught ran (world s))"
  using assms
proof (induction es arbitrary: s)
  case Nil
  then show ?case by auto
next
  case (Cons e es)
  show ?case
  proof (cases e)
    case (Enqueue func)
    with Cons.prems have r: "run es (push_task func s) = (None, s')" by simp
    from Cons.IH [OF r] Cons.prems show ?thesis
      by (simp add: push_task_def Enqueue)
  next
    case (TimerFires arrivals)
    let ?s0 = "s\<lparr>singleShots := []\<rparr>"
    from Cons.prems TimerFires obtain s1 where
      c: "consume_tasks arrivals ?s0 = (None, s1)" and r: "run es s1 = (None, s')"
      by (auto split: prod.splits option.splits)
    note s1 = consume_tasks_returns [OF c]
    from s1 Cons.prems have i1: "localTaskQueue s1 = []" "singleShots s1 = [consumeInterval]"
      by simp_all
    from Cons.IH [OF r i1] obtain ran where
      ran: "taskQueue s1 @ enqueued es = ran @ taskQueue s'"
           "world s' = effects ran (world s1)"
           "debugOut s' = debugOut s1 @ caught ran (world s1)"
      and inv: "localTaskQueue s' = []" "singleShots s' = [consumeInterval]"
      by blast
    have "taskQueue s @ enqueued (e # es) = (taskQueue s @ ran) @ taskQueue s'"
      using ran(1) s1 Cons.prems by (simp add: TimerFires)
    moreover have "world s' = effects (taskQueue s @ ran) (world s)"
      using ran(2) s1 by (simp add: effects_append)
    moreover have "debugOut s' = debugOut s @ caught (taskQueue s @ ran) (world s)"
      using ran(3) s1 by (simp add: caught_append)
    ultimately show ?thesis using inv by blast
  qed
qed


lemma executed_completes: "completes batch w \<Longrightarrow> executed batch w = batch"
  by (induction batch arbitrary: w) simp_all

lemma for_each_task_world:
  "world (snd (for_each_task arrivals batch s)) = effects (executed batch (world s)) (world s)"
proof (induction batch arbitrary: arrivals s)
  case Nil
  then show ?case by (simp add: producers_eq)
next
  case (Cons task rest)
  then show ?case
    by (cases arrivals) (simp_all add: try_task_cases producers_eq)
qed

lemma consume_tasks_world:
  "world (snd (consume_tasks arrivals s)) = effects (executed (taskQueue s) (world s)) (world s)"
proof -
  have "world (snd (for_each_task arrivals (localTaskQueue (swap_queues s)) (swap_queues s)))
          = effects (executed (taskQueue s) (world s)) (world s)"
    by (simp add: for_each_task_world swap_queues_def)
  then show ?thesis
    by (cases "for_each_task arrivals (localTaskQueue (swap_queues s)) (swap_queues s)")
       (auto simp add: consume_tasks_def Let_def singleShot_def split: option.splits)
qed


lemma run_completes:
  assumes "localTaskQueue s = []" and "singleShots s = [consumeInterval]"
    and "ticks_complete es (taskQueue s) (world s)"
  shows "\<exists>s'. run es s = (None, s')"
  using assms
proof (induction es arbitrary: s)
  case Nil
  then show ?case by simp
next
  case (Cons e es)
  show ?case
  proof (cases e)
    case (Enqueue func)
    from Cons.IH [of "push_task func s"] Cons.prems show ?thesis
      by (simp add: Enqueue push_task_def)
  next
    case (TimerFires arrivals)
    let ?s0 = "s\<lparr>singleShots := []\<rparr>"
    from Cons.prems TimerFires have c: "completes (taskQueue ?s0) (world ?s0)" by simp
    note r = consume_tasks_completes [OF c, of arrivals]
    let ?s1 = "snd (consume_tasks arrivals ?s0)"
    have "\<exists>s'. run es ?s1 = (None, s')"
      using Cons.prems TimerFires by (intro Cons.IH) (simp_all add: r)
    then show ?thesis using Cons.prems(2) by (simp add: TimerFires r)
  qed
qed

subsection \<open>Fault isolation\<close>

text \<open>
  Claim C1, as the code has it. When a task of the batch throws an exception derived from
  \<^verbatim>\<open>std::exception\<close>, and no task of the batch throws an object of another type, the
  exception is caught and its \<^verbatim>\<open>what()\<close> is logged, every later task of the batch runs
  (on the state the failed task left), the static queue is cleared, and
  \<^verbatim>\<open>consume_tasks\<close> returns with the next tick scheduled after \<^verbatim>\<open>consumeInterval\<close>.
\<close>

theorem consume_tasks_isolates_std_exception:
  assumes "taskQueue s = pre @ a # post"
    and "fst (a (effects pre (world s))) = Some (StdException what)"
    and "completes (taskQueue s) (world s)"
  shows "\<exists>s'. consume_tasks arrivals s = (None, s') \<and>
           debugOut s' = debugOut s @ caught pre (world s)
              @ [[''Exception thrown from task: '', what]]
              @ caught post (snd (a (effects pre (world s)))) \<and>
           world s' = effects post (snd (a (effects pre (world s)))) \<and>
           localTaskQueue s' = [] \<and>
           singleShots s' = singleShots s @ [consumeInterval]"
proof -
  have "caught (taskQueue s) (world s) = caught pre (world s)
          @ [[''Exception thrown from task: '', what]]
          @ caught post (snd (a (effects pre (world s))))"
    using assms(1,2) by (simp add: caught_append)
  moreover have "effects (taskQueue s) (world s) = effects post (snd (a (effects pre (world s))))"
    using assms(1) by (simp add: effects_append)
  ultimately show ?thesis
    using consume_tasks_completes [OF assms(3), of arrivals] by simp
qed

theorem consume_tasks_isolates_std_exception_witness:
  "\<exists>s'. consume_tasks []
           (producers [leaves_mark ''A'', throws_runtime_error ''boom'', leaves_mark ''B'']
              (idle [])) = (None, s') \<and>
        debugOut s' = [[''Exception thrown from task: '', ''boom'']] \<and>
        world s' = [''A'', ''B''] \<and>
        localTaskQueue s' = [] \<and>
        singleShots s' = [10]"
  using consume_tasks_isolates_std_exception
    [of "producers [leaves_mark ''A'', throws_runtime_error ''boom'', leaves_mark ''B'']
           (idle [])"
        "[leaves_mark ''A'']" "throws_runtime_error ''boom''" "[leaves_mark ''B'']"
        "''boom''" "[]"]
  by (simp add: idle_def push_task_def leaves_mark_def throws_runtime_error_def
        consumeInterval_def)

text \<open>
  Claim C1 as stated does not hold of every error: the handler is
  \<^verbatim>\<open>catch(std::exception& ex)\<close>. A task that throws an object of another type (here
  \<^verbatim>\<open>throw 42\<close>) is not caught and not logged, the task enqueued after it does not run,
  the static queue keeps the batch, and no next tick is scheduled.
\<close>

theorem consume_tasks_other_throw_escapes:
  "consume_tasks [] (producers [throws_int, leaves_mark ''B''] (idle []))
     = (Some OtherThrow,
        \<lparr>taskQueue = [], localTaskQueue = [throws_int, leaves_mark ''B''],
         singleShots = [], debugOut = [], world = []\<rparr>)"
  by (simp add: consume_tasks_def swap_queues_def try_task_def idle_def push_task_def
        throws_int_def)

subsection \<open>Exactly once, in enqueue order\<close>




subsection \<open>Tick boundaries\<close>

text \<open>
  Claim C3, as the code has it. A tick \<open>T\<close> that starts with the tasks \<open>before\<close> in the
  queue, while producers enqueue the tasks \<open>during\<close> after its swap, calls tasks of
  \<open>before\<close> only. When no task of \<open>before\<close> throws an object that is not a
  \<^verbatim>\<open>std::exception\<close>, \<open>T\<close> returns having run all of \<open>before\<close> in order and none of
  \<open>during\<close>; those wait in \<^verbatim>\<open>taskQueue\<close>, and they are the batch of the next tick, which
  runs all of them when none of them throws such an object.
\<close>

theorem tick_runs_what_was_enqueued_before_its_swap:
  assumes "taskQueue s = []" and "localTaskQueue s = []"
  shows "world (snd (consume_tasks during (producers before s)))
           = effects (executed before (world s)) (world s) \<and>
         (completes before (world s) \<longrightarrow>
            consume_tasks during (producers before s)
              = (None, s\<lparr>taskQueue := concat during,
                         localTaskQueue := [],
                         world := effects before (world s),
                         debugOut := debugOut s @ caught before (world s),
                         singleShots := singleShots s @ [consumeInterval]\<rparr>) \<and>
            (completes (concat during) (effects before (world s)) \<longrightarrow>
               (\<forall>later. consume_tasks later (snd (consume_tasks during (producers before s)))
                  = (None, s\<lparr>taskQueue := concat later,
                             localTaskQueue := [],
                             world := effects (concat during) (effects before (world s)),
                             debugOut := debugOut s @ caught before (world s)
                                @ caught (concat during) (effects before (world s)),
                             singleShots := singleShots s
                                @ [consumeInterval, consumeInterval]\<rparr>))))"
proof (intro conjI impI allI)
  show "world (snd (consume_tasks during (producers before s)))
           = effects (executed before (world s)) (world s)"
    by (simp add: consume_tasks_world producers_eq assms(1))
next
  assume c: "completes before (world s)"
  then have "completes (taskQueue (producers before s)) (world (producers before s))"
    by (simp add: producers_eq assms(1))
  from consume_tasks_completes [OF this, of during]
  show t: "consume_tasks during (producers before s)
              = (None, s\<lparr>taskQueue := concat during,
                         localTaskQueue := [],
                         world := effects before (world s),
                         debugOut := debugOut s @ caught before (world s),
                         singleShots := singleShots s @ [consumeInterval]\<rparr>)"
    by (simp add: producers_eq assms)
  fix later
  assume d: "completes (concat during) (effects before (world s))"
  let ?s' = "s\<lparr>taskQueue := concat during,
                         localTaskQueue := [],
                         world := effects before (world s),
                         debugOut := debugOut s @ caught before (world s),
                         singleShots := singleShots s @ [consumeInterval]\<rparr>"
  from d have "completes (taskQueue ?s') (world ?s')" by simp
  from consume_tasks_completes [OF this, of later]
  show "consume_tasks later (snd (consume_tasks during (producers before s)))
                  = (None, s\<lparr>taskQueue := concat later,
                             localTaskQueue := [],
                             world := effects (concat during) (effects before (world s)),
                             debugOut := debugOut s @ caught before (world s)
                                @ caught (concat during) (effects before (world s)),
                             singleShots := singleShots s
                                @ [consumeInterval, consumeInterval]\<rparr>)"
    by (simp add: t)
qed

theorem tick_runs_what_was_enqueued_before_its_swap_witness:
  "consume_tasks [[leaves_mark ''C''], [leaves_mark ''D'']]
     (producers [leaves_mark ''A'', leaves_mark ''B''] (idle []))
   = (None, \<lparr>taskQueue = [leaves_mark ''C'', leaves_mark ''D''], localTaskQueue = [],
              singleShots = [10], debugOut = [], world = [''A'', ''B'']\<rparr>) \<and>
   consume_tasks []
     \<lparr>taskQueue = [leaves_mark ''C'', leaves_mark ''D''], localTaskQueue = [],
      singleShots = [10], debugOut = [], world = [''A'', ''B'']\<rparr>
   = (None, \<lparr>taskQueue = [], localTaskQueue = [],
              singleShots = [10, 10], debugOut = [], world = [''A'', ''B'', ''C'', ''D'']\<rparr>)"
proof -
  have q: "taskQueue (idle ([]::string list)) = []" "localTaskQueue (idle ([]::string list)) = []"
    by (simp_all add: idle_def)
  note t = tick_runs_what_was_enqueued_before_its_swap [OF q,
      of "[[leaves_mark ''C''], [leaves_mark ''D'']]" "[leaves_mark ''A'', leaves_mark ''B'']"]
  have h1: "completes [leaves_mark ''A'', leaves_mark ''B''] (world (idle []))"
    by (simp add: leaves_mark_def)
  have h2: "completes (concat [[leaves_mark ''C''], [leaves_mark ''D'']])
              (effects [leaves_mark ''A'', leaves_mark ''B''] (world (idle [])))"
    by (simp add: leaves_mark_def)
  note t1 = t [THEN conjunct2, THEN mp, OF h1]
  note c1 = t1 [THEN conjunct1]
  note c2 = t1 [THEN conjunct2, THEN mp, OF h2, THEN spec, of "[]"]
  have 1: "consume_tasks [[leaves_mark ''C''], [leaves_mark ''D'']]
     (producers [leaves_mark ''A'', leaves_mark ''B''] (idle []))
   = (None, \<lparr>taskQueue = [leaves_mark ''C'', leaves_mark ''D''], localTaskQueue = [],
              singleShots = [10], debugOut = [], world = [''A'', ''B'']\<rparr>)"
    using c1 by (simp add: idle_def leaves_mark_def consumeInterval_def)
  have 2: "consume_tasks [] (snd (consume_tasks [[leaves_mark ''C''], [leaves_mark ''D'']]
     (producers [leaves_mark ''A'', leaves_mark ''B''] (idle []))))
   = (None, \<lparr>taskQueue = [], localTaskQueue = [],
              singleShots = [10, 10], debugOut = [], world = [''A'', ''B'', ''C'', ''D'']\<rparr>)"
    using c2 by (simp add: idle_def leaves_mark_def consumeInterval_def)
  from 1 2 show ?thesis by simp
qed

text \<open>
  Claim C3 as stated does not hold of every tick. In a tick whose first task is
  \<^verbatim>\<open>throw 42\<close>, the task enqueued behind it before the swap does not execute during the
  tick, and the task enqueued during the tick stays in \<^verbatim>\<open>taskQueue\<close> with no next tick
  scheduled to run it.
\<close>

theorem tick_abandons_its_batch_after_other_throw:
  "consume_tasks [[leaves_mark ''C'']] (producers [throws_int, leaves_mark ''B''] (idle []))
     = (Some OtherThrow,
        \<lparr>taskQueue = [leaves_mark ''C''], localTaskQueue = [throws_int, leaves_mark ''B''],
         singleShots = [], debugOut = [], world = []\<rparr>)"
  by (simp add: consume_tasks_def swap_queues_def try_task_def idle_def push_task_def
        throws_int_def)

subsection \<open>Self-perpetuation\<close>

text \<open>
  Claim C4, as the code has it. \<^verbatim>\<open>consumeInterval\<close> is 10. Whenever no task of the batch
  throws an object that is not a \<^verbatim>\<open>std::exception\<close>, \<^verbatim>\<open>consume_tasks\<close> returns and has
  requested one more single shot of itself after \<^verbatim>\<open>consumeInterval\<close>; \<^verbatim>\<open>push_task\<close> leaves
  the requests alone; and every execution from \<^verbatim>\<open>init_libtego_callbacks\<close> in which no tick
  meets such a task runs to its end with exactly one request pending, on which the next
  timer event drains the queue and leaves one request pending again.
\<close>

theorem drain_reschedules_itself:
  "consumeInterval = 10 \<and>
   (completes (taskQueue s) (world s) \<longrightarrow>
      (\<exists>s'. consume_tasks arrivals s = (None, s') \<and>
            singleShots s' = singleShots s @ [consumeInterval])) \<and>
   singleShots (push_task func s) = singleShots s \<and>
   (ticks_complete es [] w \<longrightarrow>
      (\<exists>s''. run es (init_libtego_callbacks (idle w)) = (None, s'') \<and>
             singleShots s'' = [consumeInterval] \<and>
             (\<forall>later. completes (taskQueue s'') (world s'') \<longrightarrow>
                run [TimerFires later] s''
                  = (None, s''\<lparr>taskQueue := concat later,
                               localTaskQueue := [],
                               world := effects (taskQueue s'') (world s''),
                               debugOut := debugOut s'' @ caught (taskQueue s'') (world s''),
                               singleShots := [consumeInterval]\<rparr>))))"
proof (intro conjI impI)
  show "consumeInterval = 10" by (simp add: consumeInterval_def)
  show "singleShots (push_task func s) = singleShots s" by (simp add: push_task_def)
next
  assume "completes (taskQueue s) (world s)"
  from consume_tasks_completes [OF this, of arrivals]
  show "\<exists>s'. consume_tasks arrivals s = (None, s') \<and>
            singleShots s' = singleShots s @ [consumeInterval]" by simp
next
  assume t: "ticks_complete es [] w"
  let ?i = "init_libtego_callbacks (idle w)"
  have i: "localTaskQueue ?i = []" "singleShots ?i = [consumeInterval]"
    and q: "taskQueue ?i = []" "world ?i = w"
    by (simp_all add: init_libtego_callbacks_def idle_def singleShot_def)
  from run_completes [OF i] t q obtain s'' where r: "run es ?i = (None, s'')" by auto
  from run_returns [OF r i]
  have l: "localTaskQueue s'' = []" and p: "singleShots s'' = [consumeInterval]" by simp_all
  have "run [TimerFires later] s''
          = (None, s''\<lparr>taskQueue := concat later,
                       localTaskQueue := [],
                       world := effects (taskQueue s'') (world s''),
                       debugOut := debugOut s'' @ caught (taskQueue s'') (world s''),
                       singleShots := [consumeInterval]\<rparr>)"
    if c: "completes (taskQueue s'') (world s'')" for later
  proof -
    from c have "completes (taskQueue (s''\<lparr>singleShots := []\<rparr>)) (world (s''\<lparr>singleShots := []\<rparr>))"
      by simp
    from consume_tasks_completes [OF this, of later] show ?thesis
      by (simp add: p l)
  qed
  with r p show "\<exists>s''. run es ?i = (None, s'') \<and>
             singleShots s'' = [consumeInterval] \<and>
             (\<forall>later. completes (taskQueue s'') (world s'') \<longrightarrow>
                run [TimerFires later] s''
                  = (None, s''\<lparr>taskQueue := concat later,
                               localTaskQueue := [],
                               world := effects (taskQueue s'') (world s''),
                               debugOut := debugOut s'' @ caught (taskQueue s'') (world s''),
                               singleShots := [consumeInterval]\<rparr>))"
    by blast
qed

theorem drain_reschedules_itself_witness:
  "run [TimerFires [], Enqueue (throws_runtime_error ''boom''), TimerFires [], TimerFires [],
        Enqueue (leaves_mark ''A'')]
     (init_libtego_callbacks (idle []))
   = (None, \<lparr>taskQueue = [leaves_mark ''A''], localTaskQueue = [], singleShots = [10],
              debugOut = [[''Exception thrown from task: '', ''boom'']], world = []\<rparr>) \<and>
   run [TimerFires []]
     \<lparr>taskQueue = [leaves_mark ''A''], localTaskQueue = [], singleShots = [10],
      debugOut = [[''Exception thrown from task: '', ''boom'']], world = []\<rparr>
   = (None, \<lparr>taskQueue = [], localTaskQueue = [], singleShots = [10],
              debugOut = [[''Exception thrown from task: '', ''boom'']], world = [''A'']\<rparr>) \<and>
   (\<exists>s'. consume_tasks [] (idle ([]::string list)) = (None, s') \<and> singleShots s' = [10])"
proof -
  let ?es = "[TimerFires [], Enqueue (throws_runtime_error ''boom''), TimerFires [],
              TimerFires [], Enqueue (leaves_mark ''A'')]"
  let ?s'' = "\<lparr>taskQueue = [leaves_mark ''A''], localTaskQueue = [], singleShots = [10],
               debugOut = [[''Exception thrown from task: '', ''boom'']],
               world = ([]::string list)\<rparr>"
  note t = drain_reschedules_itself [of "idle []" "[]" "leaves_mark ''A''" ?es "[]"]
  have h1: "completes (taskQueue (idle ([]::string list))) (world (idle []))"
    by (simp add: idle_def)
  have h2: "ticks_complete ?es [] []"
    by (simp add: throws_runtime_error_def)
  have r: "run ?es (init_libtego_callbacks (idle [])) = (None, ?s'')"
    by (simp add: init_libtego_callbacks_def idle_def singleShot_def consumeInterval_def
          push_task_def consume_tasks_def swap_queues_def try_task_def
          throws_runtime_error_def)
  have h3: "completes (taskQueue ?s'') (world ?s'')" by (simp add: leaves_mark_def)
  from t h2 obtain s'' where s'': "run ?es (init_libtego_callbacks (idle [])) = (None, s'')"
    and n: "\<forall>later. completes (taskQueue s'') (world s'') \<longrightarrow>
                run [TimerFires later] s''
                  = (None, s''\<lparr>taskQueue := concat later,
                               localTaskQueue := [],
                               world := effects (taskQueue s'') (world s''),
                               debugOut := debugOut s'' @ caught (taskQueue s'') (world s''),
                               singleShots := [consumeInterval]\<rparr>)"
    by blast
  from s'' r have e: "s'' = ?s''" by simp
  from n [unfolded e, THEN spec, of "[]", THEN mp, OF h3]
  have 2: "run [TimerFires []] ?s''
   = (None, \<lparr>taskQueue = [], localTaskQueue = [], singleShots = [10],
              debugOut = [[''Exception thrown from task: '', ''boom'']], world = [''A'']\<rparr>)"
    by (simp add: leaves_mark_def consumeInterval_def)
  from t h1 have 3: "\<exists>s'. consume_tasks [] (idle ([]::string list)) = (None, s') \<and>
      singleShots s' = [10]"
    by (simp add: idle_def consumeInterval_def)
  from r 2 3 show ?thesis by blast
qed

text \<open>
  Claim C4 as stated does not hold of every drain tick. The tick that \<^verbatim>\<open>throw 42\<close> leaves
  requests no single shot, so that no drain tick follows it: the task enqueued afterwards
  stays in the queue through the timer events that come after.
\<close>

theorem no_tick_follows_a_tick_left_by_other_throw:
  "run [Enqueue throws_int, TimerFires []] (init_libtego_callbacks (idle []))
     = (Some OtherThrow,
        \<lparr>taskQueue = [], localTaskQueue = [throws_int], singleShots = [],
         debugOut = [], world = []\<rparr>) \<and>
   run [Enqueue (leaves_mark ''B''), TimerFires [], TimerFires []]
     \<lparr>taskQueue = [], localTaskQueue = [throws_int], singleShots = [],
      debugOut = [], world = []\<rparr>
     = (None,
        \<lparr>taskQueue = [leaves_mark ''B''], localTaskQueue = [throws_int], singleShots = [],
         debugOut = [], world = []\<rparr>)"
  by (simp add: init_libtego_callbacks_def idle_def singleShot_def consumeInterval_def
        push_task_def consume_tasks_def swap_queues_def try_task_def throws_int_def)

subsection \<open>The chat-request response\<close>

text \<open>
  Claim C10. \<^verbatim>\<open>on_chat_request_response_received\<close> enqueues one task and changes nothing
  else. The task returns normally. When the response says accepted (the flag is not
  zero), the task deletes every entry of the block \<^verbatim>\<open>contacts.<serviceId>.request\<close> and
  leaves every other entry as it was; when it says not accepted, the store is left as it
  was. Drained from an otherwise empty queue, that is the whole effect of the tick on the
  store.
\<close>

theorem chat_request_response_deletes_request_block_iff_accepted:
  "on_chat_request_response_received sid accepted s
     = s\<lparr>taskQueue := taskQueue s @ [chat_request_response_task sid accepted]\<rparr> \<and>
   fst (chat_request_response_task sid accepted st) = None \<and>
   (accepted \<noteq> 0 \<longrightarrow>
      (\<forall>k. snd (chat_request_response_task sid accepted st) k
             = (if in_block (''contacts.'' @ sid @ ''.request'') k then None else st k))) \<and>
   (accepted = 0 \<longrightarrow> snd (chat_request_response_task sid accepted st) = st) \<and>
   (taskQueue s = [] \<longrightarrow>
      consume_tasks arrivals (on_chat_request_response_received sid accepted s)
        = (None, s\<lparr>taskQueue := localTaskQueue s @ concat arrivals,
                    localTaskQueue := [],
                    world := snd (chat_request_response_task sid accepted (world s)),
                    singleShots := singleShots s @ [consumeInterval]\<rparr>))"
proof (intro conjI impI)
  show "on_chat_request_response_received sid accepted s
     = s\<lparr>taskQueue := taskQueue s @ [chat_request_response_task sid accepted]\<rparr>"
    by (simp add: on_chat_request_response_received_def push_task_def)
  show "fst (chat_request_response_task sid accepted st) = None"
    by (simp add: chat_request_response_task_def)
next
  assume "accepted \<noteq> 0"
  then show "\<forall>k. snd (chat_request_response_task sid accepted st) k
             = (if in_block (''contacts.'' @ sid @ ''.request'') k then None else st k)"
    by (simp add: chat_request_response_task_def unset_def)
next
  assume "accepted = 0"
  then show "snd (chat_request_response_task sid accepted st) = st"
    by (simp add: chat_request_response_task_def)
next
  assume q: "taskQueue s = []"
  let ?t = "chat_request_response_task sid accepted"
  have returns: "fst (?t w) = None" for w
    by (simp add: chat_request_response_task_def)
  have pushed: "on_chat_request_response_received sid accepted s = s\<lparr>taskQueue := [?t]\<rparr>"
    by (simp add: on_chat_request_response_received_def push_task_def q)
  have "completes (taskQueue (s\<lparr>taskQueue := [?t]\<rparr>)) (world (s\<lparr>taskQueue := [?t]\<rparr>))"
    by (simp add: returns)
  from consume_tasks_completes [OF this, of arrivals]
  show "consume_tasks arrivals (on_chat_request_response_received sid accepted s)
        = (None, s\<lparr>taskQueue := localTaskQueue s @ concat arrivals,
                    localTaskQueue := [],
                    world := snd (chat_request_response_task sid accepted (world s)),
                    singleShots := singleShots s @ [consumeInterval]\<rparr>)"
    by (simp add: pushed returns)
qed

theorem chat_request_response_deletes_request_block_iff_accepted_witness:
  "snd (chat_request_response_task ''abc'' 1 example_store) ''contacts.abc.request.status'' = None \<and>
   snd (chat_request_response_task ''abc'' 1 example_store) ''contacts.abc.request.message'' = None \<and>
   snd (chat_request_response_task ''abc'' 1 example_store) ''contacts.abc.nickname''
     = Some (Text ''Alice'') \<and>
   snd (chat_request_response_task ''abc'' 1 example_store) ''contacts.abcd.request.message''
     = Some (Text ''hello'') \<and>
   snd (chat_request_response_task ''abc'' 0 example_store) = example_store \<and>
   world (snd (consume_tasks [] (on_chat_request_response_received ''abc'' 1 (idle example_store))))
     ''contacts.abc.request.status'' = None"
proof -
  note t = chat_request_response_deletes_request_block_iff_accepted
  have a: "\<forall>k. snd (chat_request_response_task ''abc'' 1 example_store) k
             = (if in_block (''contacts.'' @ ''abc'' @ ''.request'') k then None
                else example_store k)"
    using t [of "''abc''" 1 "idle example_store" example_store "[]"] by simp
  have b: "snd (chat_request_response_task ''abc'' 0 example_store) = example_store"
    using t [of "''abc''" 0 "idle example_store" example_store "[]"] by simp
  have q: "taskQueue (idle example_store) = []" by (simp add: idle_def)
  have c: "consume_tasks [] (on_chat_request_response_received ''abc'' 1 (idle example_store))
        = (None, (idle example_store)\<lparr>taskQueue := localTaskQueue (idle example_store) @ concat [],
                    localTaskQueue := [],
                    world := snd (chat_request_response_task ''abc'' 1 (world (idle example_store))),
                    singleShots := singleShots (idle example_store) @ [consumeInterval]\<rparr>)"
    using t [of "''abc''" 1 "idle example_store" example_store "[]"] q by blast
  have n: "example_store ''contacts.abc.nickname'' = Some (Text ''Alice'')"
    "example_store ''contacts.abcd.request.message'' = Some (Text ''hello'')"
    by (simp_all add: example_store_def)
  have w: "world (idle example_store) = example_store" by (simp add: idle_def)
  show ?thesis
    by (simp add: a b c n w in_block_def)
qed

section \<open>Properties of the incoming-request registry\<close>

subsection \<open>Live connections\<close>

text \<open>
  Claim C9. \<^verbatim>\<open>hasActiveConnection()\<close> is true exactly when the connection reference is set
  and the session it names still exists. Clearing the reference with \<^verbatim>\<open>setConnection\<close> makes
  it false; and the reference keeps no session alive: once the transport layer has closed
  the session, a record that still refers to it has no active connection.
\<close>

theorem hasActiveConnection_iff_session_alive:
  "hasActiveConnection alive r = (\<exists>session. connection r = Some session \<and> session \<in> alive) \<and>
   \<not> hasActiveConnection alive (setConnection None r) \<and>
   hasActiveConnection alive (setConnection (Some session) r) = (session \<in> alive) \<and>
   \<not> hasActiveConnection (sessionClosed session alive) (setConnection (Some session) r)"
  by (auto simp add: hasActiveConnection_def isNull_def setConnection_def sessionClosed_def
        split: option.splits)

theorem hasActiveConnection_iff_session_alive_witness:
  "hasActiveConnection {1} aliceFirst \<and>
   \<not> hasActiveConnection {1} (setConnection None aliceFirst) \<and>
   \<not> hasActiveConnection (sessionClosed 1 {1}) (setConnection (Some 1) aliceFirst)"
  using hasActiveConnection_iff_session_alive [of "{1}" aliceFirst 1]
  by (simp add: aliceFirst_def)

subsection \<open>The blacklist\<close>

lemma rejectedHosts_add:
  "rejectedHosts (addRejectedHost h m)
     = (if h \<in> set (rejectedHosts m) then rejectedHosts m else rejectedHosts m @ [h])"
  by (simp add: addRejectedHost_def isHostnameRejected_def rejectedHosts_def)

lemma rejectedHosts_adds:
  "set (rejectedHosts (addRejectedHosts hs m)) = set (rejectedHosts m) \<union> set hs"
  by (induction hs arbitrary: m) (auto simp add: rejectedHosts_add)

text \<open>
  Claim C7. After \<^verbatim>\<open>addRejectedHost(h)\<close> the hostname \<^verbatim>\<open>h\<close> is rejected; any other hostname is
  rejected after the call exactly when it was before; a second \<^verbatim>\<open>addRejectedHost(h)\<close> changes
  nothing; and starting from an empty blacklist, a hostname is rejected exactly when it
  was passed to \<^verbatim>\<open>addRejectedHost\<close>.
\<close>

theorem blacklist_membership:
  "isHostnameRejected h (addRejectedHost h m) \<and>
   isHostnameRejected h' (addRejectedHost h m) = (h' = h \<or> isHostnameRejected h' m) \<and>
   addRejectedHost h (addRejectedHost h m) = addRejectedHost h m \<and>
   (rejectedHosts m = [] \<longrightarrow>
      isHostnameRejected h' (addRejectedHosts hs m) = (h' \<in> set hs))"
proof (intro conjI impI)
  show "isHostnameRejected h (addRejectedHost h m)"
    by (simp add: isHostnameRejected_def rejectedHosts_add)
  show "isHostnameRejected h' (addRejectedHost h m) = (h' = h \<or> isHostnameRejected h' m)"
    by (auto simp add: isHostnameRejected_def rejectedHosts_add)
  have "isHostnameRejected h (addRejectedHost h m)"
    by (simp add: isHostnameRejected_def rejectedHosts_add)
  then show "addRejectedHost h (addRejectedHost h m) = addRejectedHost h m"
    by (simp add: addRejectedHost_def [of h "addRejectedHost h m"])
next
  assume "rejectedHosts m = []"
  then show "isHostnameRejected h' (addRejectedHosts hs m) = (h' \<in> set hs)"
    by (simp add: isHostnameRejected_def rejectedHosts_adds)
qed

theorem blacklist_membership_witness:
  "isHostnameRejected ''abc.onion'' (addRejectedHosts [''abc.onion'', ''xyz.onion''] emptyManager) \<and>
   \<not> isHostnameRejected ''def.onion''
       (addRejectedHosts [''abc.onion'', ''xyz.onion''] emptyManager)"
proof -
  have "rejectedHosts emptyManager = []"
    by (simp add: rejectedHosts_def emptyManager_def)
  with blacklist_membership [of "''abc.onion''" emptyManager "''abc.onion''"
      "[''abc.onion'', ''xyz.onion'']"]
    blacklist_membership [of "''abc.onion''" emptyManager "''def.onion''"
      "[''abc.onion'', ''xyz.onion'']"]
  show ?thesis by simp
qed

subsection \<open>Persistence round trip\<close>

lemma requestKey_in_namespace: "prefix (requestPath h @ ''.'') (requestKey h field)"
  by (simp add: requestKey_def)

lemma requestKey_inject: "requestKey h f = requestKey h g \<longleftrightarrow> f = g"
  by (simp add: requestKey_def)

lemma load_save:
  "load (save r st) q = q\<lparr>m_remoteSecret := m_remoteSecret r, m_message := m_message r,
      m_nickname := m_nickname r, m_requestDate := m_requestDate r,
      m_lastRequestDate := m_lastRequestDate r\<rparr>" if "hostname q = hostname r"
  using that
  by (simp add: load_def save_def readBytes_def readText_def readDate_def requestKey_inject)

lemma save_frame: "\<not> prefix (requestPath (hostname r) @ ''.'') k \<Longrightarrow> save r st k = st k"
  using requestKey_in_namespace [of "hostname r"] by (auto simp add: save_def)

lemma load_reads_namespace:
  assumes "\<forall>k. prefix (requestPath (hostname q) @ ''.'') k \<longrightarrow> st k = st' k"
  shows "load st q = load st' q"
  using assms requestKey_in_namespace [of "hostname q"]
  by (simp add: load_def readBytes_def readText_def readDate_def)

text \<open>
  Claim C8. \<^verbatim>\<open>save()\<close> followed by \<^verbatim>\<open>load()\<close> on a fresh record for the same hostname gives
  back the saved secret, message, nickname, request date and last request date.
  \<^verbatim>\<open>save()\<close> changes no entry outside \<^verbatim>\<open>contacts.<hostname>.request.*\<close>, and what \<^verbatim>\<open>load()\<close>
  reads depends on the entries inside it only.
\<close>

theorem save_then_load_round_trip:
  "remoteSecret (load (save r st) (IncomingContactRequest (hostname r) c)) = remoteSecret r \<and>
   message (load (save r st) (IncomingContactRequest (hostname r) c)) = message r \<and>
   nickname (load (save r st) (IncomingContactRequest (hostname r) c)) = nickname r \<and>
   requestDate (load (save r st) (IncomingContactRequest (hostname r) c)) = requestDate r \<and>
   lastRequestDate (load (save r st) (IncomingContactRequest (hostname r) c))
     = lastRequestDate r \<and>
   (\<forall>k. \<not> prefix (''contacts.'' @ hostname r @ ''.request.'') k \<longrightarrow> save r st k = st k) \<and>
   ((\<forall>k. prefix (''contacts.'' @ h @ ''.request.'') k \<longrightarrow> st1 k = st2 k) \<longrightarrow>
      load st1 (IncomingContactRequest h c) = load st2 (IncomingContactRequest h c))"
proof -
  have h: "hostname (IncomingContactRequest (hostname r) c) = hostname r"
    by (simp add: IncomingContactRequest_def)
  note l = load_save [OF h, of st]
  have p: "requestPath x @ ''.'' = ''contacts.'' @ x @ ''.request.''" for x
    by (simp add: requestPath_def)
  have "\<forall>k. \<not> prefix (''contacts.'' @ hostname r @ ''.request.'') k \<longrightarrow> save r st k = st k"
    using save_frame [of r _ st] by (simp add: p)
  moreover have "load st1 (IncomingContactRequest h c) = load st2 (IncomingContactRequest h c)"
    if "\<forall>k. prefix (''contacts.'' @ h @ ''.request.'') k \<longrightarrow> st1 k = st2 k"
    using load_reads_namespace [of "IncomingContactRequest h c" st1 st2] that
    by (simp add: p IncomingContactRequest_def)
  ultimately show ?thesis
    by (simp add: l remoteSecret_def message_def nickname_def requestDate_def
          lastRequestDate_def)
qed

theorem save_then_load_round_trip_witness:
  "load (save alice example_store) (IncomingContactRequest ''abc.onion'' None)
     = alice\<lparr>connection := None\<rparr> \<and>
   save alice example_store ''contacts.abc.nickname'' = Some (Text ''Alice'') \<and>
   save alice example_store ''contacts.abc.onion.request.date'' = Some (Date 1000) \<and>
   load (save alice example_store) (IncomingContactRequest ''abc.onion'' None)
     = load (save alice Map.empty) (IncomingContactRequest ''abc.onion'' None)"
proof -
  note t = save_then_load_round_trip [of alice example_store None "''abc.onion''"
      "save alice example_store" "save alice Map.empty"]
  have frame: "save alice example_store ''contacts.abc.nickname''
                 = example_store ''contacts.abc.nickname''"
    using t by (simp add: alice_def)
  have same: "\<forall>k. prefix (''contacts.'' @ ''abc.onion'' @ ''.request.'') k \<longrightarrow>
                save alice example_store k = save alice Map.empty k"
    by (auto simp add: save_def requestKey_def requestPath_def alice_def example_store_def)
  have reads: "load (save alice example_store) (IncomingContactRequest ''abc.onion'' None)
     = load (save alice Map.empty) (IncomingContactRequest ''abc.onion'' None)"
    using t same by blast
  have fields: "load (save alice example_store) (IncomingContactRequest ''abc.onion'' None)
     = alice\<lparr>connection := None\<rparr>"
    using t
    by (simp add: alice_def remoteSecret_def message_def nickname_def requestDate_def
          lastRequestDate_def load_def IncomingContactRequest_def)
  have written: "save alice example_store ''contacts.abc.onion.request.date''
                   = Some (Date 1000)"
    by (simp add: save_def requestKey_def requestPath_def alice_def)
  have "example_store ''contacts.abc.nickname'' = Some (Text ''Alice'')"
    by (simp add: example_store_def)
  with frame reads fields written show ?thesis by simp
qed

subsection \<open>Upsert by hostname\<close>

lemma requestFromHostname_None:
  "requestFromHostname h m = None \<longleftrightarrow> filter (\<lambda>r. hostname r = h) (m_requests m) = []"
  by (auto simp add: requestFromHostname_def find_None_iff filter_empty_conv)

lemma find_single: "filter P xs = [r] \<Longrightarrow> find P xs = Some r"
  by (induction xs) (auto split: if_splits)

lemma filter_updateRecord:
  "filter (\<lambda>r. hostname r = hostname r') xs = [r] \<Longrightarrow>
   filter (\<lambda>r. hostname r = hostname r') (updateRecord r' xs) = [r']"
  by (induction xs) (auto split: if_splits)

lemma filter_updateRecord_other:
  "hostname r' \<noteq> h \<Longrightarrow>
   filter (\<lambda>r. hostname r = h) (updateRecord r' xs) = filter (\<lambda>r. hostname r = h) xs"
  by (induction xs) auto

lemma filter_removeOne_other:
  "h' \<noteq> h \<Longrightarrow>
   filter (\<lambda>r. hostname r = h) (removeOne h' xs) = filter (\<lambda>r. hostname r = h) xs"
  by (induction xs) auto

lemma addRequest_first:
  assumes "requestFromHostname h m = None"
  shows "filter (\<lambda>r. hostname r = h) (m_requests (addRequest h connSecret conn nick msg now m))
           = [\<lparr>hostname = h, connection = conn, m_remoteSecret = connSecret, m_message = msg,
               m_nickname = nick, m_requestDate = now, m_lastRequestDate = now\<rparr>]"
    and "emitted (addRequest h connSecret conn nick msg now m) = emitted m @ [RequestAdded h]"
  using assms requestFromHostname_None [of h m]
  by (simp_all add: addRequest_def IncomingContactRequest_def Let_def)

lemma addRequest_renew:
  assumes "filter (\<lambda>r. hostname r = h) (m_requests m) = [r]"
  shows "filter (\<lambda>r. hostname r = h) (m_requests (addRequest h connSecret conn nick msg now m))
           = [r\<lparr>m_lastRequestDate := now, m_remoteSecret := connSecret, connection := conn,
                 m_nickname := nick, m_message := msg\<rparr>]"
    and "emitted (addRequest h connSecret conn nick msg now m) = emitted m"
proof -
  have f: "requestFromHostname h m = Some r"
    using find_single [OF assms] by (simp add: requestFromHostname_def)
  have "r \<in> set (filter (\<lambda>r. hostname r = h) (m_requests m))" using assms by simp
  then have h: "hostname r = h" by simp
  let ?r' = "r\<lparr>m_lastRequestDate := now, m_remoteSecret := connSecret, connection := conn,
                 m_nickname := nick, m_message := msg\<rparr>"
  have "hostname ?r' = h" using h by simp
  with filter_updateRecord [of ?r' "m_requests m" r] assms
  show "filter (\<lambda>r. hostname r = h) (m_requests (addRequest h connSecret conn nick msg now m))
           = [?r']"
    by (simp add: addRequest_def f Let_def)
  show "emitted (addRequest h connSecret conn nick msg now m) = emitted m"
    by (simp add: addRequest_def f Let_def)
qed

lemma addRequests_renew:
  assumes "filter (\<lambda>r. hostname r = h) (m_requests m) = [r]"
    and "calls \<noteq> []" and "last calls = (connSecret, conn, nick, msg, now)"
  shows "filter (\<lambda>r. hostname r = h) (m_requests (addRequests h calls m))
           = [r\<lparr>m_lastRequestDate := now, m_remoteSecret := connSecret, connection := conn,
                 m_nickname := nick, m_message := msg\<rparr>] \<and>
         emitted (addRequests h calls m) = emitted m"
  using assms
proof (induction calls arbitrary: m r)
  case Nil
  then show ?case by simp
next
  case (Cons call rest)
  obtain s1 c1 n1 m1 t1 where call: "call = (s1, c1, n1, m1, t1)" by (cases call) auto
  note step = addRequest_renew [OF Cons.prems(1), of s1 c1 n1 m1 t1]
  show ?case
  proof (cases "rest = []")
    case True
    with Cons.prems(3) call step show ?thesis by simp
  next
    case False
    with Cons.prems(3) have "last rest = (connSecret, conn, nick, msg, now)" by simp
    from Cons.IH [OF step(1) False this] step(2) show ?thesis by (simp add: call)
  qed
qed

text \<open>
  Claim C5. After any non-empty run of \<^verbatim>\<open>addRequest\<close> calls for a hostname that had no
  record, the registry holds exactly one record for the hostname: its request date is the
  clock reading of the first call, its last request date that of the last call, its
  secret, connection handle, nickname and message those of the last call; and the run has
  emitted one signal, the added signal of the first call.
\<close>

theorem addRequest_keeps_one_record_per_hostname:
  assumes "requestFromHostname h m = None"
    and "last ((connSecret1, conn1, nick1, msg1, now1) # calls) = (connSecret, conn, nick, msg, now)"
  shows "filter (\<lambda>r. hostname r = h)
           (requests (addRequests h ((connSecret1, conn1, nick1, msg1, now1) # calls) m))
           = [\<lparr>hostname = h, connection = conn, m_remoteSecret = connSecret, m_message = msg,
               m_nickname = nick, m_requestDate = now1, m_lastRequestDate = now\<rparr>] \<and>
         emitted (addRequests h ((connSecret1, conn1, nick1, msg1, now1) # calls) m)
           = emitted m @ [RequestAdded h]"
proof (cases "calls = []")
  case True
  with assms addRequest_first [OF assms(1), of connSecret1 conn1 nick1 msg1 now1]
  show ?thesis by (simp add: requests_def)
next
  case False
  with assms(2) have l: "last calls = (connSecret, conn, nick, msg, now)" by simp
  note one = addRequest_first [OF assms(1), of connSecret1 conn1 nick1 msg1 now1]
  from addRequests_renew [OF one(1) False l] one(2)
  show ?thesis by (simp add: requests_def)
qed

theorem addRequest_keeps_one_record_per_hostname_witness:
  "filter (\<lambda>r. hostname r = ''abc.onion'')
     (requests (addRequests ''abc.onion''
        [(''s1'', Some 1, ''Alice'', ''hi'', 1000), (''s2'', Some 2, ''Alicia'', ''hi again'', 2000)]
        emptyManager))
   = [\<lparr>hostname = ''abc.onion'', connection = Some 2, m_remoteSecret = ''s2'',
       m_message = ''hi again'', m_nickname = ''Alicia'', m_requestDate = 1000,
       m_lastRequestDate = 2000\<rparr>] \<and>
   emitted (addRequests ''abc.onion''
        [(''s1'', Some 1, ''Alice'', ''hi'', 1000), (''s2'', Some 2, ''Alicia'', ''hi again'', 2000)]
        emptyManager) = [RequestAdded ''abc.onion'']"
proof -
  have "requestFromHostname ''abc.onion'' emptyManager = None"
    by (simp add: requestFromHostname_def emptyManager_def)
  from addRequest_keeps_one_record_per_hostname [OF this, of
      "''s1''" "Some 1" "''Alice''" "''hi''" 1000
      "[(''s2'', Some 2, ''Alicia'', ''hi again'', 2000)]"
      "''s2''" "Some 2" "''Alicia''" "''hi again''" 2000]
  show ?thesis by (simp add: emptyManager_def)
qed

subsection \<open>Resolution\<close>

lemma find_distinct_hostname:
  "distinct (map hostname xs) \<Longrightarrow> r \<in> set xs \<Longrightarrow>
   find (\<lambda>q. hostname q = hostname r) xs = Some r"
  by (induction xs) (auto simp add: image_iff)

lemma removeOne_subset: "set (removeOne h xs) \<subseteq> set xs"
  by (induction xs) auto

lemma removeOne_distinct:
  "distinct (map hostname xs) \<Longrightarrow> distinct (map hostname (removeOne h xs))"
proof (induction xs)
  case Nil
  then show ?case by simp
next
  case (Cons x xs)
  then show ?case using removeOne_subset [of h xs] by (auto simp add: image_iff)
qed

lemma removeOne_absent:
  "distinct (map hostname xs) \<Longrightarrow> filter (\<lambda>q. hostname q = h) (removeOne h xs) = []"
  by (induction xs) (auto simp add: image_iff filter_empty_conv)

lemma map_hostname_updateRecord: "map hostname (updateRecord r' xs) = map hostname xs"
  by (induction xs) auto

text \<open>
  One record per hostname is an invariant of the registry: every call keeps it, and it
  holds of the empty registry.
\<close>

lemma perform_distinct:
  assumes "distinct (map hostname (m_requests m))"
  shows "distinct (map hostname (m_requests (perform c m)))"
proof (cases c)
  case (AddRequest h connSecret conn nick msg now)
  show ?thesis
  proof (cases "requestFromHostname h m")
    case None
    then have "h \<notin> hostname ` set (m_requests m)"
      by (auto simp add: requestFromHostname_def find_None_iff)
    with assms None show ?thesis
      by (simp add: AddRequest addRequest_def Let_def IncomingContactRequest_def)
  next
    case (Some r)
    with assms show ?thesis
      by (simp add: AddRequest addRequest_def Let_def map_hostname_updateRecord)
  qed
next
  case (Accept h)
  with removeOne_distinct [OF assms, of h] assms show ?thesis
    by (cases "requestFromHostname h m") (simp_all add: accept_def removeRequest_def)
next
  case (Reject h)
  with removeOne_distinct [OF assms, of h] assms show ?thesis
    by (cases "requestFromHostname h m") (simp_all add: reject_def removeRequest_def)
next
  case (AddRejectedHost h)
  with assms show ?thesis by (simp add: addRejectedHost_def)
qed

lemma performs_distinct:
  "distinct (map hostname (m_requests m)) \<Longrightarrow>
   distinct (map hostname (m_requests (performs cs m)))"
  by (induction cs arbitrary: m) (simp_all add: perform_distinct)

lemma one_record_per_hostname:
  "distinct (map hostname (requests (performs cs emptyManager)))"
  using performs_distinct [of emptyManager cs] by (simp add: requests_def emptyManager_def)

lemma removeRequest_store:
  "in_block (''contacts.'' @ h @ ''.request'') k \<Longrightarrow> store (removeRequest h m) k = None"
  by (simp add: removeRequest_def unset_def)

lemma resolved:
  assumes "r \<in> set (m_requests m)" and "distinct (map hostname (m_requests m))"
  shows "requestFromHostname (hostname r) (removeRequest (hostname r) (m\<lparr>toTransport := t\<rparr>)) = None"
    and "r \<notin> set (m_requests (removeRequest (hostname r) (m\<lparr>toTransport := t\<rparr>)))"
    and "distinct (map hostname (m_requests (removeRequest (hostname r) (m\<lparr>toTransport := t\<rparr>))))"
    and "emitted (removeRequest (hostname r) (m\<lparr>toTransport := t\<rparr>))
           = emitted m @ [RequestRemoved (hostname r)]"
proof -
  have a: "filter (\<lambda>q. hostname q = hostname r) (removeOne (hostname r) (m_requests m)) = []"
    using removeOne_absent [OF assms(2)] .
  then show "requestFromHostname (hostname r) (removeRequest (hostname r) (m\<lparr>toTransport := t\<rparr>))
               = None"
    by (simp add: requestFromHostname_None removeRequest_def)
  from a show "r \<notin> set (m_requests (removeRequest (hostname r) (m\<lparr>toTransport := t\<rparr>)))"
    by (auto simp add: removeRequest_def filter_empty_conv)
  show "distinct (map hostname (m_requests (removeRequest (hostname r) (m\<lparr>toTransport := t\<rparr>))))"
    using removeOne_distinct [OF assms(2)] by (simp add: removeRequest_def)
  show "emitted (removeRequest (hostname r) (m\<lparr>toTransport := t\<rparr>))
           = emitted m @ [RequestRemoved (hostname r)]"
    by (simp add: removeRequest_def)
qed

lemma perform_no_event:
  assumes "requestFromHostname h m = None" and "\<not> addsRequestFor h c"
  shows "requestFromHostname h (perform c m) = None \<and> eventsFor h (perform c m) = eventsFor h m"
proof (cases c)
  case (AddRequest h' connSecret conn nick msg now)
  with assms(2) have ne: "h' \<noteq> h" by simp
  show ?thesis
  proof (cases "requestFromHostname h' m")
    case None
    with assms(1) ne show ?thesis
      by (simp add: AddRequest addRequest_def Let_def requestFromHostname_None [of h]
            IncomingContactRequest_def eventsFor_def)
  next
    case (Some r)
    then have "hostname r = h'"
      by (auto simp add: requestFromHostname_def find_Some_iff)
    with assms(1) ne Some show ?thesis
      by (simp add: AddRequest addRequest_def Let_def requestFromHostname_None [of h]
            filter_updateRecord_other eventsFor_def)
  qed
next
  case (Accept h')
  show ?thesis
  proof (cases "h' = h")
    case True
    with assms(1) show ?thesis by (simp add: Accept accept_def)
  next
    case False
    with assms(1) show ?thesis
      by (cases "requestFromHostname h' m")
         (simp_all add: Accept accept_def removeRequest_def requestFromHostname_None [of h]
            filter_removeOne_other eventsFor_def)
  qed
next
  case (Reject h')
  show ?thesis
  proof (cases "h' = h")
    case True
    with assms(1) show ?thesis by (simp add: Reject reject_def)
  next
    case False
    with assms(1) show ?thesis
      by (cases "requestFromHostname h' m")
         (simp_all add: Reject reject_def removeRequest_def requestFromHostname_None [of h]
            filter_removeOne_other eventsFor_def)
  qed
next
  case (AddRejectedHost h')
  with assms(1) show ?thesis
    by (simp add: addRejectedHost_def requestFromHostname_None [of h] eventsFor_def)
qed

lemma performs_no_event:
  assumes "requestFromHostname h m = None" and "\<forall>c \<in> set cs. \<not> addsRequestFor h c"
  shows "eventsFor h (performs cs m) = eventsFor h m"
  using assms
proof (induction cs arbitrary: m)
  case Nil
  then show ?case by simp
next
  case (Cons c cs)
  from Cons.prems have "\<not> addsRequestFor h c" by simp
  from perform_no_event [OF Cons.prems(1) this] Cons.IH [of "perform c m"] Cons.prems(2)
  show ?case by simp
qed

text \<open>
  Claim C6. In a registry with one record per hostname, \<^verbatim>\<open>accept()\<close> or \<^verbatim>\<open>reject()\<close> on a
  record of the registry succeeds, and afterwards the record is absent from
  \<^verbatim>\<open>requests()\<close>, no entry of its persisted block is left in the store, the removed signal
  for it has been emitted once, as the last signal, and nothing fires for it any more:
  \<^verbatim>\<open>accept()\<close> and \<^verbatim>\<open>reject()\<close> on it are invalid, and no run of calls that does not add a
  request for its hostname anew emits a signal that carries it.
\<close>

theorem accept_or_reject_removes_the_record:
  assumes "r \<in> set (requests m)" and "distinct (map hostname (requests m))"
    and "resolve = accept \<or> resolve = reject"
  shows "\<exists>m'. resolve (hostname r) m = Some m' \<and>
           r \<notin> set (requests m') \<and>
           requestFromHostname (hostname r) m' = None \<and>
           (\<forall>k. in_block (''contacts.'' @ hostname r @ ''.request'') k \<longrightarrow> store m' k = None) \<and>
           emitted m' = emitted m @ [RequestRemoved (hostname r)] \<and>
           accept (hostname r) m' = None \<and> reject (hostname r) m' = None \<and>
           (\<forall>cs. (\<forall>c \<in> set cs. \<not> addsRequestFor (hostname r) c) \<longrightarrow>
              eventsFor (hostname r) (performs cs m') = eventsFor (hostname r) m')"
proof -
  from assms(1,2) have in_m: "r \<in> set (m_requests m)"
    and d: "distinct (map hostname (m_requests m))"
    by (simp_all add: requests_def)
  have f: "requestFromHostname (hostname r) m = Some r"
    using find_distinct_hostname [OF d in_m] by (simp add: requestFromHostname_def)
  define t where "t = (if resolve = accept then toTransport m @ [AcceptContact (hostname r)]
                       else toTransport m @ [RejectContact (hostname r)])"
  define m' where "m' = removeRequest (hostname r) (m\<lparr>toTransport := t\<rparr>)"
  have res: "resolve (hostname r) m = Some m'"
    using assms(3) f by (auto simp add: accept_def reject_def m'_def t_def)
  note facts = resolved [OF in_m d, of t, folded m'_def]
  have gone: "accept (hostname r) m' = None" "reject (hostname r) m' = None"
    using facts(1) by (simp_all add: accept_def reject_def)
  have st: "\<forall>k. in_block (''contacts.'' @ hostname r @ ''.request'') k \<longrightarrow> store m' k = None"
    using removeRequest_store [of "hostname r"] by (simp add: m'_def)
  have quiet: "\<forall>cs. (\<forall>c \<in> set cs. \<not> addsRequestFor (hostname r) c) \<longrightarrow>
              eventsFor (hostname r) (performs cs m') = eventsFor (hostname r) m'"
    using performs_no_event [OF facts(1)] by blast
  from res facts gone st quiet show ?thesis
    by (simp add: requests_def)
qed

theorem accept_or_reject_removes_the_record_witness:
  "requests aliceAsks = [aliceFirst] \<and>
   hasActiveConnection {1} aliceFirst \<and>
   store aliceAsks ''contacts.abc.onion.request.secret'' = Some (Bytes ''s1'') \<and>
   (\<exists>m'. reject ''abc.onion'' aliceAsks = Some m' \<and>
      aliceFirst \<notin> set (requests m') \<and>
      store m' ''contacts.abc.onion.request.secret'' = None \<and>
      emitted m' = [RequestAdded ''abc.onion'', RequestRemoved ''abc.onion''] \<and>
      accept ''abc.onion'' m' = None \<and>
      eventsFor ''abc.onion''
        (performs [AddRequest ''xyz.onion'' ''s2'' None ''Bob'' ''hello'' 1500,
                   Reject ''abc.onion'', AddRejectedHost ''abc.onion''] m')
        = [RequestAdded ''abc.onion'', RequestRemoved ''abc.onion''])"
proof -
  have m: "aliceAsks = \<lparr>m_requests = [aliceFirst], store = save aliceFirst Map.empty,
                        emitted = [RequestAdded ''abc.onion''], toTransport = []\<rparr>"
    by (simp add: aliceAsks_def aliceFirst_def addRequest_def requestFromHostname_def
          emptyManager_def IncomingContactRequest_def Let_def)
  have h: "hostname aliceFirst = ''abc.onion''" by (simp add: aliceFirst_def)
  have 1: "aliceFirst \<in> set (requests aliceAsks)" by (simp add: m requests_def)
  have 2: "distinct (map hostname (requests aliceAsks))" by (simp add: m requests_def)
  from accept_or_reject_removes_the_record [OF 1 2, of reject]
  obtain m' where m': "reject ''abc.onion'' aliceAsks = Some m'"
    "aliceFirst \<notin> set (requests m')"
    "\<forall>k. in_block (''contacts.'' @ ''abc.onion'' @ ''.request'') k \<longrightarrow> store m' k = None"
    "emitted m' = emitted aliceAsks @ [RequestRemoved ''abc.onion'']"
    "accept ''abc.onion'' m' = None"
    "\<forall>cs. (\<forall>c \<in> set cs. \<not> addsRequestFor ''abc.onion'' c) \<longrightarrow>
              eventsFor ''abc.onion'' (performs cs m') = eventsFor ''abc.onion'' m'"
    unfolding h by blast
  have s: "store m' ''contacts.abc.onion.request.secret'' = None"
    using m'(3) by (simp add: in_block_def)
  have e: "emitted m' = [RequestAdded ''abc.onion'', RequestRemoved ''abc.onion'']"
    using m'(4) by (simp add: m)
  have q: "eventsFor ''abc.onion''
        (performs [AddRequest ''xyz.onion'' ''s2'' None ''Bob'' ''hello'' 1500,
                   Reject ''abc.onion'', AddRejectedHost ''abc.onion''] m')
        = eventsFor ''abc.onion'' m'"
  proof -
    have "\<forall>c \<in> set [AddRequest ''xyz.onion'' ''s2'' None ''Bob'' ''hello'' 1500,
                   Reject ''abc.onion'', AddRejectedHost ''abc.onion''].
            \<not> addsRequestFor ''abc.onion'' c" by simp
    with m'(6) show ?thesis by blast
  qed
  have "eventsFor ''abc.onion'' m' = [RequestAdded ''abc.onion'', RequestRemoved ''abc.onion'']"
    by (simp add: eventsFor_def e)
  with q m' s e have "\<exists>m'. reject ''abc.onion'' aliceAsks = Some m' \<and>
      aliceFirst \<notin> set (requests m') \<and>
      store m' ''contacts.abc.onion.request.secret'' = None \<and>
      emitted m' = [RequestAdded ''abc.onion'', RequestRemoved ''abc.onion''] \<and>
      accept ''abc.onion'' m' = None \<and>
      eventsFor ''abc.onion''
        (performs [AddRequest ''xyz.onion'' ''s2'' None ''Bob'' ''hello'' 1500,
                   Reject ''abc.onion'', AddRejectedHost ''abc.onion''] m')
        = [RequestAdded ''abc.onion'', RequestRemoved ''abc.onion'']"
    by simp
  moreover have "requests aliceAsks = [aliceFirst]" by (simp add: m requests_def)
  moreover have "hasActiveConnection {1} aliceFirst"
    by (simp add: hasActiveConnection_def isNull_def aliceFirst_def)
  moreover have "store aliceAsks ''contacts.abc.onion.request.secret'' = Some (Bytes ''s1'')"
    by (simp add: m save_def requestKey_def requestPath_def aliceFirst_def)
  ultimately show ?thesis by blast
qed

end
